theory Spec2Isabelle
  imports Complex_Main
begin

section \<open>Characters and strings of the analyzer\<close>

text \<open>
  The analyzer (\<^verbatim>\<open>dist/index.js\<close>, functions \<^verbatim>\<open>content_density_evaluator\<close> and
  \<^verbatim>\<open>accessibility_surface_check\<close>) scans the fetched page text with regular
  expressions. A page is modelled as a \<^typ>\<open>string\<close>: one \<^typ>\<open>char\<close> per code unit, for
  pages whose code units are below 256. The three character classes that the
  regular expressions of the source use are written out for that range.
\<close>

definition code :: "char \<Rightarrow> int" where
  "code c = of_char c"

text \<open>\<^verbatim>\<open>\s\<close> and \<^verbatim>\<open>String.prototype.trim\<close> use the same set: white space and line
  terminators (TAB, LF, VT, FF, CR, SP and NBSP among the code units below 256).\<close>

definition is_space :: "char \<Rightarrow> bool" where
  "is_space c = (code c \<in> {9, 10, 11, 12, 13, 32, 160})"

text \<open>\<^verbatim>\<open>\w\<close>, which decides the word boundary \<^verbatim>\<open>\b\<close>: \<^verbatim>\<open>[A-Za-z0-9_]\<close>.\<close>

definition is_word :: "char \<Rightarrow> bool" where
  "is_word c = ((65 \<le> code c \<and> code c \<le> 90) \<or> (97 \<le> code c \<and> code c \<le> 122)
                \<or> (48 \<le> code c \<and> code c \<le> 57) \<or> code c = 95)"

text \<open>Canonicalisation under the \<^verbatim>\<open>i\<close> flag (no \<^verbatim>\<open>u\<close> flag): a character is compared
  through its upper-case form. Every letter in the patterns of the source is an ASCII
  letter, and a code unit of 128 or more never canonicalises to an ASCII one, so only
  the ASCII letters are mapped. The upper-case form of an ASCII lower-case letter is
  32 below it: the same bits with bit 5 cleared.\<close>

definition is_lower :: "char \<Rightarrow> bool" where
  "is_lower c = (97 \<le> code c \<and> code c \<le> 122)"

definition canon :: "char \<Rightarrow> char" where
  "canon c = (if is_lower c
     then Char (digit0 c) (digit1 c) (digit2 c) (digit3 c) (digit4 c) False (digit6 c) (digit7 c)
     else c)"

section \<open>Regular expressions with backtracking priority\<close>

text \<open>
  The fragment of the pattern language that the source uses: literal characters, the
  classes \<^verbatim>\<open>[^c]\<close>, \<^verbatim>\<open>[a-b]\<close>, \<^verbatim>\<open>\s\<close> and \<^verbatim>\<open>[\s\S]\<close>, concatenation, the greedy
  \<^verbatim>\<open>*\<close> and \<^verbatim>\<open>+\<close>, the lazy \<^verbatim>\<open>*?\<close>, the assertion \<^verbatim>\<open>\b\<close>, capture groups and
  back-references. The \<^verbatim>\<open>i\<close> flag acts on the literal characters and on the
  back-reference; the classes of the source (\<^verbatim>\<open>[^>]\<close>, the two \<^verbatim>\<open>[^QUOTE]\<close>, \<^verbatim>\<open>[1-6]\<close>,
  \<^verbatim>\<open>\s\<close>, \<^verbatim>\<open>[\s\S]\<close>) hold no letter, so that it changes nothing in them.
\<close>

datatype regex =
    Empty
  | Chr char
  | NotChr char
  | Range char char
  | Space
  | AnyChr
  | Seq regex regex
  | Star regex
  | LazyStar regex
  | WordB
  | Group nat regex
  | BackRef nat

definition Plus :: "regex \<Rightarrow> regex" where
  "Plus r = Seq r (Star r)"

text \<open>A pattern is written as the list of its items, in the order of the source.\<close>

definition seqs :: "regex list \<Rightarrow> regex" where
  "seqs rs = foldr Seq rs Empty"

definition chars :: "string \<Rightarrow> regex list" where
  "chars s = map Chr s"

text \<open>A matcher state, as in the language's definition of pattern matching: the input
  that is left and the index reached (\<open>endIndex\<close>), with the character before the
  current position (for \<^verbatim>\<open>\b\<close>) and the captures made so far. A capture is kept as
  the input at its start and its length.\<close>

datatype mstate = MState (prev: "char option") (rest: string) (endIndex: int)
  (caps: "(nat \<times> string \<times> int) list")

type_synonym cont = "mstate \<Rightarrow> mstate option"

text \<open>A matcher takes the continuation (what is left to match) and a state. It hands
  each state in which its own match can end to the continuation, in the order in
  which backtracking tries them, until the continuation succeeds.\<close>

type_synonym matcher = "cont \<Rightarrow> mstate \<Rightarrow> mstate option"

definition same_chr :: "bool \<Rightarrow> char \<Rightarrow> char \<Rightarrow> bool" where
  "same_chr icase a b = (if icase then canon a = canon b else a = b)"

definition step :: "(char \<Rightarrow> bool) \<Rightarrow> matcher" where
  "step P k st = (case rest st of
       [] \<Rightarrow> None
     | c # cs \<Rightarrow> if P c then k (MState (Some c) cs (endIndex st + 1) (caps st)) else None)"

definition word_before :: "mstate \<Rightarrow> bool" where
  "word_before st = (case prev st of None \<Rightarrow> False | Some c \<Rightarrow> is_word c)"

definition word_after :: "mstate \<Rightarrow> bool" where
  "word_after st = (case rest st of [] \<Rightarrow> False | c # _ \<Rightarrow> is_word c)"

definition boundary :: matcher where
  "boundary k st = (if word_before st \<noteq> word_after st then k st else None)"

text \<open>Iteration. A round that consumes nothing is rejected (\<open>progress\<close>), so the length
  of the input bounds the number of rounds (lemmas \<open>star_greedy_unfold\<close> and
  \<open>star_lazy_unfold\<close>: the bound is never felt). The greedy star tries one more round
  before it tries the continuation; the lazy star tries the continuation first.\<close>

definition progress :: "mstate \<Rightarrow> cont \<Rightarrow> cont" where
  "progress st k st' = (if endIndex st' = endIndex st then None else k st')"

primrec rounds_greedy :: "matcher \<Rightarrow> nat \<Rightarrow> matcher" where
  "rounds_greedy f 0 k st = k st"
| "rounds_greedy f (Suc n) k st =
     (case f (progress st (rounds_greedy f n k)) st of
        Some z \<Rightarrow> Some z
      | None \<Rightarrow> k st)"

primrec rounds_lazy :: "matcher \<Rightarrow> nat \<Rightarrow> matcher" where
  "rounds_lazy f 0 k st = k st"
| "rounds_lazy f (Suc n) k st =
     (case k st of
        Some z \<Rightarrow> Some z
      | None \<Rightarrow> f (progress st (rounds_lazy f n k)) st)"

definition star_greedy :: "matcher \<Rightarrow> matcher" where
  "star_greedy f k st = rounds_greedy f (length (rest st)) k st"

definition star_lazy :: "matcher \<Rightarrow> matcher" where
  "star_lazy f k st = rounds_lazy f (length (rest st)) k st"

text \<open>A capture group records the text that its pattern consumed.\<close>

definition close_group :: "nat \<Rightarrow> mstate \<Rightarrow> cont \<Rightarrow> cont" where
  "close_group n st k st' =
     k (MState (prev st') (rest st') (endIndex st')
          ((n, rest st, endIndex st' - endIndex st) # caps st'))"

definition in_group :: "nat \<Rightarrow> matcher \<Rightarrow> matcher" where
  "in_group n f k st = f (close_group n st k) st"

definition captured :: "(nat \<times> string \<times> int) list \<Rightarrow> nat \<Rightarrow> string option" where
  "captured cs n = (case map_of cs n of None \<Rightarrow> None | Some (s, len) \<Rightarrow> Some (take (nat len) s))"

text \<open>A back-reference matches the text of its group again (a group that has not
  taken part matches the empty text).\<close>

fun match_text :: "bool \<Rightarrow> string \<Rightarrow> matcher" where
  "match_text icase [] k = k"
| "match_text icase (c # cs) k = step (same_chr icase c) (match_text icase cs k)"

definition back_ref :: "bool \<Rightarrow> nat \<Rightarrow> matcher" where
  "back_ref icase n k st =
     (case captured (caps st) n of None \<Rightarrow> k st | Some t \<Rightarrow> match_text icase t k st)"

primrec m :: "bool \<Rightarrow> regex \<Rightarrow> matcher" where
  "m icase Empty k = k"
| "m icase (Chr c) k = step (same_chr icase c) k"
| "m icase (NotChr c) k = step (\<lambda>d. d \<noteq> c) k"
| "m icase (Range a b) k = step (\<lambda>d. code a \<le> code d \<and> code d \<le> code b) k"
| "m icase Space k = step is_space k"
| "m icase AnyChr k = step (\<lambda>d. True) k"
| "m icase (Seq r1 r2) k = m icase r1 (m icase r2 k)"
| "m icase (Star r) k = star_greedy (m icase r) k"
| "m icase (LazyStar r) k = star_lazy (m icase r) k"
| "m icase WordB k = boundary k"
| "m icase (Group n r) k = in_group n (m icase r) k"
| "m icase (BackRef n) k = back_ref icase n k"

text \<open>A match: the input at its start, its length, and the captures.\<close>

datatype rmatch = RMatch (input: string) (len: int) (groups: "(nat \<times> string \<times> int) list")

text \<open>\<^verbatim>\<open>match[0]\<close>, the whole matched text.\<close>

definition whole :: "rmatch \<Rightarrow> string" where
  "whole mt = take (nat (len mt)) (input mt)"

text \<open>\<^verbatim>\<open>match[n]\<close>. A group that took no part in the match reads as the empty text
  here; in every pattern of the source, the group that is read takes part in every
  match (lemmas \<open>element_group_takes_part\<close>, \<open>attr_group_takes_part\<close> and
  \<open>heading_capture\<close>).\<close>

definition capture :: "rmatch \<Rightarrow> nat \<Rightarrow> string" where
  "capture mt n = (case captured (groups mt) n of None \<Rightarrow> [] | Some t \<Rightarrow> t)"

definition match_at :: "bool \<Rightarrow> regex \<Rightarrow> char option \<Rightarrow> string \<Rightarrow> rmatch option" where
  "match_at icase r p s = (case m icase r Some (MState p s 0 []) of
       None \<Rightarrow> None
     | Some st \<Rightarrow> Some (RMatch s (endIndex st) (caps st)))"

text \<open>\<^verbatim>\<open>r.exec(s)\<close> and \<^verbatim>\<open>s.match(r)\<close> without the \<^verbatim>\<open>g\<close> flag: the leftmost match.\<close>

fun search :: "bool \<Rightarrow> regex \<Rightarrow> char option \<Rightarrow> string \<Rightarrow> rmatch option" where
  "search icase r p [] = match_at icase r p []"
| "search icase r p (c # cs) = (case match_at icase r p (c # cs) of
       Some mt \<Rightarrow> Some mt
     | None \<Rightarrow> search icase r (Some c) cs)"

definition exec :: "bool \<Rightarrow> regex \<Rightarrow> string \<Rightarrow> rmatch option" where
  "exec icase r s = search icase r None s"

text \<open>With the \<^verbatim>\<open>g\<close> flag (\<^verbatim>\<open>s.match(r)\<close>, and the \<^verbatim>\<open>while (r.exec(s))\<close> loops): all
  matches from left to right, each search starting where the last match ended. The
  counter \<open>k\<close> is the number of characters still covered by the last match. After an
  empty match \<^verbatim>\<open>s.match(r)\<close> moves one character on; the patterns of the two
  \<^verbatim>\<open>exec\<close> loops never match the empty text (lemmas \<open>element_match_consumes\<close> and
  \<open>heading_match_consumes\<close>), so that the loops end.\<close>

fun scan :: "bool \<Rightarrow> regex \<Rightarrow> char option \<Rightarrow> string \<Rightarrow> int \<Rightarrow> rmatch list" where
  "scan icase r p [] k =
     (if 0 < k then []
      else case match_at icase r p [] of None \<Rightarrow> [] | Some mt \<Rightarrow> [mt])"
| "scan icase r p (c # cs) k =
     (if 0 < k then scan icase r (Some c) cs (k - 1)
      else case match_at icase r p (c # cs) of
          None \<Rightarrow> scan icase r (Some c) cs 0
        | Some mt \<Rightarrow> mt # scan icase r (Some c) cs (len mt - 1))"

definition match_all :: "bool \<Rightarrow> regex \<Rightarrow> string \<Rightarrow> rmatch list" where
  "match_all icase r s = scan icase r None s 0"

text \<open>\<^verbatim>\<open>s.replace(r, rep)\<close> with the \<^verbatim>\<open>g\<close> flag and a replacement text without \<^verbatim>\<open>$\<close>.\<close>

fun subst :: "bool \<Rightarrow> regex \<Rightarrow> string \<Rightarrow> char option \<Rightarrow> string \<Rightarrow> int \<Rightarrow> string" where
  "subst icase r rep p [] k =
     (if 0 < k then []
      else case match_at icase r p [] of None \<Rightarrow> [] | Some mt \<Rightarrow> rep)"
| "subst icase r rep p (c # cs) k =
     (if 0 < k then subst icase r rep (Some c) cs (k - 1)
      else case match_at icase r p (c # cs) of
          None \<Rightarrow> c # subst icase r rep (Some c) cs 0
        | Some mt \<Rightarrow>
            if len mt = 0 then rep @ c # subst icase r rep (Some c) cs 0
            else rep @ subst icase r rep (Some c) cs (len mt - 1))"

definition replace_all :: "bool \<Rightarrow> regex \<Rightarrow> string \<Rightarrow> string \<Rightarrow> string" where
  "replace_all icase r rep s = subst icase r rep None s 0"

text \<open>\<^verbatim>\<open>s.split(r)\<close>: \<open>cur\<close> is the piece being read, in reverse. A separator is looked for
  at every position but the end; an empty match at the start of a piece is skipped.
  The empty string splits into one empty piece when the separator does not match it.\<close>

fun pieces :: "bool \<Rightarrow> regex \<Rightarrow> char option \<Rightarrow> string \<Rightarrow> int \<Rightarrow> string \<Rightarrow> string list" where
  "pieces icase r p [] k cur = [rev cur]"
| "pieces icase r p (c # cs) k cur =
     (if 0 < k then pieces icase r (Some c) cs (k - 1) cur
      else case match_at icase r p (c # cs) of
          None \<Rightarrow> pieces icase r (Some c) cs 0 (c # cur)
        | Some mt \<Rightarrow>
            if len mt = 0 then
              (if cur = [] then pieces icase r (Some c) cs 0 [c]
               else rev cur # pieces icase r (Some c) cs 0 [c])
            else rev cur # pieces icase r (Some c) cs (len mt - 1) [])"

definition split :: "bool \<Rightarrow> regex \<Rightarrow> string \<Rightarrow> string list" where
  "split icase r s =
     (if s = [] then (case exec icase r [] of None \<Rightarrow> [[]] | Some mt \<Rightarrow> [])
      else pieces icase r None s 0 [])"

definition trim :: "string \<Rightarrow> string" where
  "trim s = rev (dropWhile is_space (rev (dropWhile is_space s)))"

text \<open>\<^verbatim>\<open>xs.join(sep)\<close>.\<close>

definition join :: "string \<Rightarrow> string list \<Rightarrow> string" where
  "join sep xs = (case xs of [] \<Rightarrow> [] | y # ys \<Rightarrow> y @ concat (map (\<lambda>z. sep @ z) ys))"

section \<open>The helpers of the analyzer\<close>

text \<open>\<^verbatim>\<open>getTagContents(html, tag)\<close>: the pattern
  \<^verbatim>\<open><TAG\b[^>]*>([\s\S]*?)<\/TAG>\<close> with the flags \<^verbatim>\<open>gi\<close>; the loop collects
  \<^verbatim>\<open>match[1]\<close> of every match.\<close>

definition re_element :: "string \<Rightarrow> regex" where
  "re_element tag = seqs ([Chr CHR ''<''] @ chars tag @
     [WordB, Star (NotChr CHR ''>''), Chr CHR ''>'', Group 1 (LazyStar AnyChr),
      Chr CHR ''<'', Chr CHR ''/''] @ chars tag @ [Chr CHR ''>''])"

definition getTagContents :: "string \<Rightarrow> string \<Rightarrow> string list" where
  "getTagContents html tag = map (\<lambda>mt. capture mt 1) (match_all True (re_element tag) html)"

text \<open>\<^verbatim>\<open>stripTags(s)\<close>:
  \<^verbatim>\<open>s.replace(/<[^>]*>/g, " ").replace(/\s+/g, " ").trim()\<close>.\<close>

definition re_markup :: regex where
  "re_markup = seqs [Chr CHR ''<'', Star (NotChr CHR ''>''), Chr CHR ''>'']"

definition re_spaces :: regex where
  "re_spaces = Plus Space"

definition stripTags :: "string \<Rightarrow> string" where
  "stripTags s = trim (replace_all False re_spaces '' '' (replace_all False re_markup '' '' s))"

section \<open>Content density\<close>

text \<open>\<^verbatim>\<open>/<img\b[^>]*>/gi\<close> and \<^verbatim>\<open>/<h[1-6]\b[^>]*>/gi\<close>.\<close>

definition re_img :: regex where
  "re_img = seqs (chars ''<img'' @ [WordB, Star (NotChr CHR ''>''), Chr CHR ''>''])"

definition re_heading_open :: regex where
  "re_heading_open = seqs (chars ''<h'' @
     [Range CHR ''1'' CHR ''6'', WordB, Star (NotChr CHR ''>''), Chr CHR ''>''])"

text \<open>\<^verbatim>\<open>p.split(/\s+/).filter(Boolean)\<close>: the non-empty pieces.\<close>

definition words_of :: "string \<Rightarrow> string list" where
  "words_of s = filter (\<lambda>w. w \<noteq> []) (split False re_spaces s)"

record density =
  url :: string
  wordCount :: int
  imageCount :: int
  headingCount :: int
  avgParagraphLength :: int
  scanabilityScore :: int
  "notes" :: "string list"

definition paragraphTexts :: "string \<Rightarrow> string list" where
  "paragraphTexts html = filter (\<lambda>t. 0 < length t) (map stripTags (getTagContents html ''p''))"

definition paragraphWordCounts :: "string \<Rightarrow> int list" where
  "paragraphWordCounts html = map (\<lambda>p. int (length (words_of p))) (paragraphTexts html)"

text \<open>The average is a quotient of two integers in the source's number type; it is
  modelled by the exact quotient, which the comparisons with 80 and 100 cannot tell
  apart from the rounded one for any page of fewer than \<open>2^46\<close> paragraphs. The field
  \<open>avgParagraphLength\<close> of the result is the exact quotient rounded.\<close>

definition avgParagraphLength_of :: "string \<Rightarrow> rat" where
  "avgParagraphLength_of html =
     (let counts = paragraphWordCounts html in
      if length counts = 0 then 0
      else of_int (foldl (+) 0 counts) / of_int (int (length counts)))"

text \<open>\<^verbatim>\<open>Math.round\<close>: to the nearest integer, a half upwards.\<close>

definition round_half_up :: "rat \<Rightarrow> int" where
  "round_half_up x = \<lfloor>x + 1 / 2\<rfloor>"

definition note_paragraphs_long :: string where
  "note_paragraphs_long = ''Paragraphs are long; consider splitting large blocks of text.''"

definition note_paragraphs_ok :: string where
  "note_paragraphs_ok = ''Paragraph length seems reasonable.''"

definition note_no_images :: string where
  "note_no_images = ''No images found; consider adding supporting visuals.''"

definition note_images :: string where
  "note_images = ''Contains imagery to break up text.''"

definition note_no_headings :: string where
  "note_no_headings = ''No headings found; add subheadings to improve scanning.''"

definition note_headings :: string where
  "note_headings = ''Has headings to guide the reader.''"

text \<open>The body of \<^verbatim>\<open>content_density_evaluator\<close> once the page text \<open>html\<close> is there.
  The score and the list of notes are built by the source's sequence of updates.\<close>

definition content_density :: "string \<Rightarrow> string \<Rightarrow> density" where
  "content_density u html =
     (let allWords = words_of (join '' '' (paragraphTexts html));
          wordCount = int (length allWords);
          imageCount = int (length (match_all True re_img html));
          headingCount = int (length (match_all True re_heading_open html));
          avg = avgParagraphLength_of html;
          score0 = (100 :: int);
          score1 = (if avg > 100 then score0 - 20 else score0);
          score2 = (if imageCount = 0 then score1 - 20 else score1);
          score3 = (if headingCount = 0 then score2 - 20 else score2);
          score4 = (if score3 < 0 then 0 else score3);
          notes0 = [];
          notes1 = notes0 @ [if avg > 80 then note_paragraphs_long else note_paragraphs_ok];
          notes2 = notes1 @ [if imageCount = 0 then note_no_images else note_images];
          notes3 = notes2 @ [if headingCount = 0 then note_no_headings else note_headings]
      in \<lparr> url = u, wordCount = wordCount, imageCount = imageCount,
           headingCount = headingCount, avgParagraphLength = round_half_up avg,
           scanabilityScore = score4, notes = notes3 \<rparr>)"

text \<open>The page is fetched first; a response that is not \<^verbatim>\<open>ok\<close> makes the tool throw
  \<^verbatim>\<open>Failed to fetch URL: STATUS\<close>.\<close>

record response =
  ok :: bool
  status :: nat
  body :: string

datatype error = FailedToFetch string nat


section \<open>Accessibility surface\<close>

text \<open>\<^verbatim>\<open>/<h1\b[^>]*>([\s\S]*?)<\/h1>/gi\<close> is \<open>re_element ''h1''\<close>, and
  \<^verbatim>\<open>/<button\b[^>]*>([\s\S]*?)<\/button>/gi\<close> is \<open>re_element ''button''\<close>.
  The attribute patterns are \<^verbatim>\<open>/\bNAME\s*=\s*"([^"]*)"/i\<close> and the same with single
  quotes; the heading pattern is \<^verbatim>\<open>/<(h[1-6])\b[^>]*>([\s\S]*?)<\/\1>/gi\<close>.\<close>

definition dquote :: char where
  "dquote = CHR 0x22"

definition squote :: char where
  "squote = CHR 0x27"

definition re_attr :: "string \<Rightarrow> char \<Rightarrow> regex" where
  "re_attr name q = seqs ([WordB] @ chars name @
     [Star Space, Chr CHR ''='', Star Space, Chr q, Group 1 (Star (NotChr q)), Chr q])"

definition re_heading :: regex where
  "re_heading = seqs [Chr CHR ''<'', Group 1 (seqs [Chr CHR ''h'', Range CHR ''1'' CHR ''6'']),
     WordB, Star (NotChr CHR ''>''), Chr CHR ''>'', Group 2 (LazyStar AnyChr),
     Chr CHR ''<'', Chr CHR ''/'', BackRef 1, Chr CHR ''>'']"

text \<open>The value of an attribute as the source reads it: the double-quoted match if
  there is one, else the single-quoted match, else \<^verbatim>\<open>null\<close>.\<close>

definition attrValue :: "string \<Rightarrow> string \<Rightarrow> string option" where
  "attrValue name tag =
     (case exec True (re_attr name dquote) tag of
        Some mt \<Rightarrow> Some (capture mt 1)
      | None \<Rightarrow> (case exec True (re_attr name squote) tag of
            Some mt \<Rightarrow> Some (capture mt 1)
          | None \<Rightarrow> None))"

definition imgTags :: "string \<Rightarrow> string list" where
  "imgTags html = map whole (match_all True re_img html)"

definition missingAlt :: "string \<Rightarrow> bool" where
  "missingAlt imgTag = (case attrValue ''alt'' imgTag of None \<Rightarrow> True | Some v \<Rightarrow> trim v = [])"

definition imagesMissingAlt_of :: "string \<Rightarrow> int" where
  "imagesMissingAlt_of html =
     fold (\<lambda>imgTag n. if missingAlt imgTag then n + 1 else n) (imgTags html) 0"

definition buttonBlocks :: "string \<Rightarrow> string list" where
  "buttonBlocks html = map whole (match_all True (re_element ''button'') html)"

text \<open>\<^verbatim>\<open>innerMatch ? innerMatch[1] : ""\<close>, and the visible text of a button block: the
  chain of replacements of \<^verbatim>\<open>stripTags\<close>, written out again in the source.\<close>

definition innerHtml :: "string \<Rightarrow> string" where
  "innerHtml block =
     (case exec True (re_element ''button'') block of Some mt \<Rightarrow> capture mt 1 | None \<Rightarrow> [])"

definition visibleText :: "string \<Rightarrow> string" where
  "visibleText block =
     trim (replace_all False re_spaces '' '' (replace_all False re_markup '' '' (innerHtml block)))"

definition unlabeled :: "string \<Rightarrow> bool" where
  "unlabeled block =
     (length (visibleText block) = 0 \<and>
      (case attrValue ''aria-label'' block of None \<Rightarrow> True | Some v \<Rightarrow> length v = 0))"

definition unlabeledButtons_of :: "string \<Rightarrow> int" where
  "unlabeledButtons_of html =
     fold (\<lambda>block n. if unlabeled block then n + 1 else n) (buttonBlocks html) 0"

text \<open>\<^verbatim>\<open>parseInt(tagName.toLowerCase().replace("h", ""), 10)\<close>. The lower-case form
  of an upper-case letter is 32 above it: the same bits with bit 5 set. The
  replacement takes out the first \<^verbatim>\<open>h\<close>. \<^verbatim>\<open>parseInt\<close> reads the decimal digits at the
  front of the text (after white space); \<open>None\<close> is \<^verbatim>\<open>NaN\<close>. The texts it is given
  here carry no sign.\<close>

definition is_upper :: "char \<Rightarrow> bool" where
  "is_upper c = ((65 \<le> code c \<and> code c \<le> 90)
                 \<or> (192 \<le> code c \<and> code c \<le> 222 \<and> code c \<noteq> 215))"

definition toLowerCase :: "string \<Rightarrow> string" where
  "toLowerCase s = map (\<lambda>c. if is_upper c
     then Char (digit0 c) (digit1 c) (digit2 c) (digit3 c) (digit4 c) True (digit6 c) (digit7 c)
     else c) s"

fun remove_first :: "char \<Rightarrow> string \<Rightarrow> string" where
  "remove_first x [] = []"
| "remove_first x (c # cs) = (if c = x then cs else c # remove_first x cs)"

definition is_digit :: "char \<Rightarrow> bool" where
  "is_digit c = (48 \<le> code c \<and> code c \<le> 57)"

definition parseInt :: "string \<Rightarrow> int option" where
  "parseInt s =
     (let ds = takeWhile is_digit (dropWhile is_space s) in
      if ds = [] then None
      else Some (foldl (\<lambda>n c. 10 * n + (code c - 48)) 0 ds))"

definition headingLevels :: "string \<Rightarrow> int option list" where
  "headingLevels html =
     map (\<lambda>mt. parseInt (remove_first CHR ''h'' (toLowerCase (capture mt 1))))
         (match_all True re_heading html)"

text \<open>\<^verbatim>\<open>curr - prev > 2\<close>; a comparison with \<^verbatim>\<open>NaN\<close> is false.\<close>

definition jump :: "int option \<Rightarrow> int option \<Rightarrow> bool" where
  "jump previous current = (case (previous, current) of (Some a, Some b) \<Rightarrow> b - a > 2 | _ \<Rightarrow> False)"

text \<open>\<^verbatim>\<open>for (let i = 1; i < headingLevels.length; i++)\<close>.\<close>

function order_loop :: "int option list \<Rightarrow> nat \<Rightarrow> int \<Rightarrow> int" where
  "order_loop levels i issues =
     (if i < length levels
      then order_loop levels (i + 1)
             (if jump (levels ! (i - 1)) (levels ! i) then issues + 1 else issues)
      else issues)"
  by pat_completeness auto
termination
  by (relation "measure (\<lambda>(levels, i, issues). length levels - i)") auto

declare order_loop.simps [simp del]

definition headingOrderIssues_of :: "string \<Rightarrow> int" where
  "headingOrderIssues_of html = order_loop (headingLevels html) 1 0"

text \<open>The notes of the accessibility check carry symbols outside the character range
  of the model; each note is represented by its kind, with the count it prints.\<close>

datatype a11y_note =
    NoH1 | MultipleH1 | SingleH1
  | ImagesMissingAlt int | AllImagesHaveAlt
  | ButtonsUnlabeled int | AllButtonsLabeled
  | HeadingJumps int | HeadingsConsistent

record accessibility =
  a_url :: string
  h1Count :: int
  imagesMissingAlt :: int
  unlabeledButtons :: int
  headingOrderIssues :: int
  accessibilityScore :: int
  a_notes :: "a11y_note list"

text \<open>The body of \<^verbatim>\<open>accessibility_surface_check\<close> once the page text is there.\<close>

definition accessibility_surface :: "string \<Rightarrow> string \<Rightarrow> accessibility" where
  "accessibility_surface u html =
     (let h1Count = int (length (match_all True (re_element ''h1'') html));
          imagesMissingAlt = imagesMissingAlt_of html;
          unlabeledButtons = unlabeledButtons_of html;
          headingOrderIssues = headingOrderIssues_of html;
          score0 = (100 :: int);
          score1 = (if h1Count = 0 then score0 - 10 else score0);
          score2 = (if h1Count > 1 then score1 - 10 else score1);
          score3 = score2 - imagesMissingAlt * 2;
          score4 = score3 - unlabeledButtons * 3;
          score5 = score4 - headingOrderIssues * 5;
          score6 = (if score5 < 0 then 0 else score5);
          notes1 = [if h1Count = 0 then NoH1 else if h1Count > 1 then MultipleH1 else SingleH1];
          notes2 = notes1 @ [if imagesMissingAlt > 0 then ImagesMissingAlt imagesMissingAlt
                             else AllImagesHaveAlt];
          notes3 = notes2 @ [if unlabeledButtons > 0 then ButtonsUnlabeled unlabeledButtons
                             else AllButtonsLabeled];
          notes4 = notes3 @ [if headingOrderIssues > 0 then HeadingJumps headingOrderIssues
                             else HeadingsConsistent]
      in \<lparr> a_url = u, h1Count = h1Count, imagesMissingAlt = imagesMissingAlt,
           unlabeledButtons = unlabeledButtons, headingOrderIssues = headingOrderIssues,
           accessibilityScore = score6, a_notes = notes4 \<rparr>)"

definition accessibility_surface_check :: "string \<Rightarrow> response \<Rightarrow> error + accessibility" where
  "accessibility_surface_check u res =
     (if \<not> ok res then Inl (FailedToFetch u (status res))
      else Inr (accessibility_surface u (body res)))"

section \<open>Notions for reasoning about the matcher\<close>

text \<open>The numbers of the groups of a pattern, and the relation between a state and a
  later state of the same match: some input \<open>u\<close> was consumed, the index moved by its
  length, and captures of groups in \<open>N\<close> were added.\<close>

primrec groups_of :: "regex \<Rightarrow> nat set" where
  "groups_of Empty = {}"
| "groups_of (Chr c) = {}"
| "groups_of (NotChr c) = {}"
| "groups_of (Range a b) = {}"
| "groups_of Space = {}"
| "groups_of AnyChr = {}"
| "groups_of (Seq r1 r2) = groups_of r1 \<union> groups_of r2"
| "groups_of (Star r) = groups_of r"
| "groups_of (LazyStar r) = groups_of r"
| "groups_of WordB = {}"
| "groups_of (Group n r) = insert n (groups_of r)"
| "groups_of (BackRef n) = {}"

definition extends :: "nat set \<Rightarrow> mstate \<Rightarrow> mstate \<Rightarrow> bool" where
  "extends N st st' =
     (\<exists>u new. rest st = u @ rest st' \<and> endIndex st' = endIndex st + int (length u)
        \<and> caps st' = new @ caps st \<and> fst ` set new \<subseteq> N)"

section \<open>Reference definitions, in the words of the specification\<close>

text \<open>The Text Normalizer as the specification words it: the tag markup (from a
  \<^verbatim>\<open><\<close> to the next \<^verbatim>\<open>>\<close>, brackets included) is taken out, every run of white space
  becomes one space, and the result is trimmed. \<open>markup_to rep\<close> puts \<open>rep\<close> where a
  piece of markup was: the specification's wording is \<open>rep = []\<close>.\<close>

function markup_to :: "string \<Rightarrow> string \<Rightarrow> string" where
  "markup_to rep [] = []"
| "markup_to rep (c # cs) =
     (if c = CHR ''<'' \<and> CHR ''>'' \<in> set cs
      then rep @ markup_to rep (tl (dropWhile (\<lambda>d. d \<noteq> CHR ''>'') cs))
      else c # markup_to rep cs)"
  by pat_completeness auto
termination
  by (relation "measure (\<lambda>(rep, s). length s)")
     (auto simp: less_Suc_eq_le intro: le_trans [OF diff_le_self length_dropWhile_le])

function collapse :: "string \<Rightarrow> string" where
  "collapse [] = []"
| "collapse (c # cs) =
     (if is_space c then CHR '' '' # collapse (dropWhile is_space cs) else c # collapse cs)"
  by pat_completeness auto
termination
  by (relation "measure length") (auto simp: less_Suc_eq_le length_dropWhile_le)

definition normalize_spec :: "string \<Rightarrow> string" where
  "normalize_spec s = trim (collapse (markup_to [] s))"

text \<open>Two properties of a normalized text: no \<^verbatim>\<open><\<close> with a \<^verbatim>\<open>>\<close> after it, and every
  white-space character a single blank that no white space follows.\<close>

fun no_markup :: "string \<Rightarrow> bool" where
  "no_markup [] = True"
| "no_markup (c # cs) = ((c \<noteq> CHR ''<'' \<or> CHR ''>'' \<notin> set cs) \<and> no_markup cs)"

fun spaced :: "string \<Rightarrow> bool" where
  "spaced [] = True"
| "spaced (c # cs) =
     ((is_space c \<longrightarrow> c = CHR '' '' \<and> (case cs of [] \<Rightarrow> True | d # _ \<Rightarrow> \<not> is_space d))
      \<and> spaced cs)"

text \<open>The Attribute Value Reader as the specification words it: the attribute tokens
  of an opening tag, read from left to right. A token is a name, optionally followed
  by \<^verbatim>\<open>=\<close> and a value in double quotes, in single quotes or bare; the tag ends at
  \<^verbatim>\<open>>\<close>. An attribute is absent when no token carries its name.\<close>

datatype lexer =
    InTag
  | Between
  | InName string
  | AfterName string
  | AfterEq string
  | InQuoted string char string
  | InBare string string

fun attr_tokens :: "lexer \<Rightarrow> string \<Rightarrow> (string \<times> string) list" where
  "attr_tokens st [] = (case st of
       InName n \<Rightarrow> [(rev n, [])]
     | AfterName n \<Rightarrow> [(rev n, [])]
     | AfterEq n \<Rightarrow> [(rev n, [])]
     | InBare n v \<Rightarrow> [(rev n, rev v)]
     | _ \<Rightarrow> [])"
| "attr_tokens InTag (c # cs) =
     (if c = CHR ''>'' then []
      else if is_space c \<or> c = CHR ''/'' then attr_tokens Between cs
      else attr_tokens InTag cs)"
| "attr_tokens Between (c # cs) =
     (if c = CHR ''>'' then []
      else if is_space c \<or> c = CHR ''/'' then attr_tokens Between cs
      else attr_tokens (InName [c]) cs)"
| "attr_tokens (InName n) (c # cs) =
     (if c = CHR ''>'' then [(rev n, [])]
      else if is_space c then attr_tokens (AfterName n) cs
      else if c = CHR ''='' then attr_tokens (AfterEq n) cs
      else if c = CHR ''/'' then (rev n, []) # attr_tokens Between cs
      else attr_tokens (InName (c # n)) cs)"
| "attr_tokens (AfterName n) (c # cs) =
     (if c = CHR ''>'' then [(rev n, [])]
      else if is_space c then attr_tokens (AfterName n) cs
      else if c = CHR ''='' then attr_tokens (AfterEq n) cs
      else if c = CHR ''/'' then (rev n, []) # attr_tokens Between cs
      else (rev n, []) # attr_tokens (InName [c]) cs)"
| "attr_tokens (AfterEq n) (c # cs) =
     (if c = CHR ''>'' then [(rev n, [])]
      else if is_space c then attr_tokens (AfterEq n) cs
      else if c = dquote \<or> c = squote then attr_tokens (InQuoted n c []) cs
      else attr_tokens (InBare n [c]) cs)"
| "attr_tokens (InQuoted n q v) (c # cs) =
     (if c = q then (rev n, rev v) # attr_tokens Between cs
      else attr_tokens (InQuoted n q (c # v)) cs)"
| "attr_tokens (InBare n v) (c # cs) =
     (if c = CHR ''>'' then [(rev n, rev v)]
      else if is_space c then (rev n, rev v) # attr_tokens Between cs
      else attr_tokens (InBare n (c # v)) cs)"

definition attribute_spec :: "string \<Rightarrow> string \<Rightarrow> string option" where
  "attribute_spec name tag =
     map_of (map (\<lambda>(n, v). (toLowerCase n, v)) (attr_tokens InTag tag)) (toLowerCase name)"



text \<open>The three notes of the density scorer as the specification words them: each
  note negative exactly when its penalty applies.\<close>

definition notes_spec :: "string \<Rightarrow> string list" where
  "notes_spec html =
     [if avgParagraphLength_of html > 100 then note_paragraphs_long else note_paragraphs_ok,
      if length (match_all True re_img html) = 0 then note_no_images else note_images,
      if length (match_all True re_heading_open html) = 0 then note_no_headings
      else note_headings]"

section \<open>Properties of the matcher\<close>

subsection \<open>A match hands a later state to its continuation\<close>

lemma extends_refl: "extends N st st"
  by (simp add: extends_def)

lemma extends_trans:
  assumes "extends N a b" and "extends M b c"
  shows "extends (N \<union> M) a c"
proof -
  from assms(1) obtain u new where
    1: "rest a = u @ rest b" "endIndex b = endIndex a + int (length u)"
       "caps b = new @ caps a" "fst ` set new \<subseteq> N"
    unfolding extends_def by blast
  from assms(2) obtain u' new' where
    2: "rest b = u' @ rest c" "endIndex c = endIndex b + int (length u')"
       "caps c = new' @ caps b" "fst ` set new' \<subseteq> M"
    unfolding extends_def by blast
  from 1 2 show ?thesis
    unfolding extends_def
    by (intro exI [of _ "u @ u'"] exI [of _ "new' @ new"]) auto
qed

lemma extends_same: "extends N a b \<Longrightarrow> extends N b c \<Longrightarrow> extends N a c"
  using extends_trans [of N a b N c] by simp

lemma step_result:
  assumes "step P k st = Some z"
  shows "\<exists>c cs. rest st = c # cs \<and> P c
           \<and> k (MState (Some c) cs (endIndex st + 1) (caps st)) = Some z"
  using assms by (auto simp: step_def split: list.splits if_splits)

lemma step_extends:
  assumes "step P k st = Some z"
  shows "\<exists>st'. extends N st st' \<and> k st' = Some z"
proof -
  from step_result [OF assms] obtain c cs where
    r: "rest st = c # cs" and k: "k (MState (Some c) cs (endIndex st + 1) (caps st)) = Some z"
    by blast
  have "extends N st (MState (Some c) cs (endIndex st + 1) (caps st))"
    unfolding extends_def using r
    by (intro exI [of _ "[c]"] exI [of _ "[]"]) simp
  with k show ?thesis by blast
qed

lemma rounds_greedy_extends:
  assumes f: "\<And>k st z. f k st = Some z \<Longrightarrow> \<exists>st'. extends N st st' \<and> k st' = Some z"
  shows "rounds_greedy f n k st = Some z \<Longrightarrow> \<exists>st'. extends N st st' \<and> k st' = Some z"
proof (induction n arbitrary: st)
  case 0
  then show ?case using extends_refl by auto
next
  case (Suc n)
  show ?case
  proof (cases "f (progress st (rounds_greedy f n k)) st")
    case None
    with Suc.prems have "k st = Some z" by simp
    then show ?thesis using extends_refl by blast
  next
    case (Some z')
    with Suc.prems have "f (progress st (rounds_greedy f n k)) st = Some z" by simp
    from f [OF this] obtain st1 where
      e1: "extends N st st1" and p: "progress st (rounds_greedy f n k) st1 = Some z"
      by blast
    from p have "rounds_greedy f n k st1 = Some z"
      by (simp add: progress_def split: if_splits)
    from Suc.IH [OF this] obtain st' where "extends N st1 st'" and "k st' = Some z"
      by blast
    with e1 show ?thesis using extends_same by blast
  qed
qed

lemma rounds_lazy_extends:
  assumes f: "\<And>k st z. f k st = Some z \<Longrightarrow> \<exists>st'. extends N st st' \<and> k st' = Some z"
  shows "rounds_lazy f n k st = Some z \<Longrightarrow> \<exists>st'. extends N st st' \<and> k st' = Some z"
proof (induction n arbitrary: st)
  case 0
  then show ?case using extends_refl by auto
next
  case (Suc n)
  show ?case
  proof (cases "k st")
    case (Some z')
    with Suc.prems have "k st = Some z" by simp
    then show ?thesis using extends_refl by blast
  next
    case None
    with Suc.prems have "f (progress st (rounds_lazy f n k)) st = Some z" by simp
    from f [OF this] obtain st1 where
      e1: "extends N st st1" and p: "progress st (rounds_lazy f n k) st1 = Some z"
      by blast
    from p have "rounds_lazy f n k st1 = Some z"
      by (simp add: progress_def split: if_splits)
    from Suc.IH [OF this] obtain st' where "extends N st1 st'" and "k st' = Some z"
      by blast
    with e1 show ?thesis using extends_same by blast
  qed
qed

lemma match_text_extends:
  "match_text icase t k st = Some z \<Longrightarrow> \<exists>st'. extends N st st' \<and> k st' = Some z"
proof (induction t arbitrary: st)
  case Nil
  then show ?case using extends_refl by auto
next
  case (Cons c t)
  from Cons.prems have "step (same_chr icase c) (match_text icase t k) st = Some z" by simp
  from step_extends [OF this] obtain st1 where
    "extends N st st1" and "match_text icase t k st1 = Some z" by blast
  with Cons.IH show ?case using extends_same by blast
qed

lemma m_extends:
  "m icase r k st = Some z \<Longrightarrow> \<exists>st'. extends (groups_of r) st st' \<and> k st' = Some z"
proof (induction r arbitrary: k st z)
  case Empty
  then show ?case using extends_refl by auto
next
  case (Seq r1 r2)
  from Seq.prems have "m icase r1 (m icase r2 k) st = Some z" by simp
  from Seq.IH(1) [OF this] obtain st1 where
    e1: "extends (groups_of r1) st st1" and "m icase r2 k st1 = Some z" by blast
  from Seq.IH(2) [OF this(2)] obtain st' where
    "extends (groups_of r2) st1 st'" and "k st' = Some z" by blast
  with e1 show ?case using extends_trans by fastforce
next
  case (Star r)
  then show ?case
    using rounds_greedy_extends [of "m icase r" "groups_of r"]
    by (auto simp: star_greedy_def)
next
  case (LazyStar r)
  then show ?case
    using rounds_lazy_extends [of "m icase r" "groups_of r"]
    by (auto simp: star_lazy_def)
next
  case WordB
  then show ?case
    using extends_refl by (auto simp: boundary_def split: if_splits)
next
  case (Group n r)
  from Group.prems have "m icase r (close_group n st k) st = Some z"
    by (simp add: in_group_def)
  from Group.IH [OF this] obtain st1 where
    e1: "extends (groups_of r) st st1" and c: "close_group n st k st1 = Some z" by blast
  let ?st2 = "MState (prev st1) (rest st1) (endIndex st1)
     ((n, rest st, endIndex st1 - endIndex st) # caps st1)"
  from c have k: "k ?st2 = Some z" by (simp add: close_group_def)
  from e1 obtain u new where
    "rest st = u @ rest st1" "endIndex st1 = endIndex st + int (length u)"
    "caps st1 = new @ caps st" "fst ` set new \<subseteq> groups_of r"
    unfolding extends_def by blast
  then have "extends (insert n (groups_of r)) st ?st2"
    unfolding extends_def
    by (intro exI [of _ u] exI [of _ "(n, rest st, endIndex st1 - endIndex st) # new"]) auto
  with k show ?case by auto
next
  case (BackRef n)
  then show ?case
    using extends_refl match_text_extends
    by (auto simp: back_ref_def split: option.splits)
qed (auto dest: step_extends)

subsection \<open>A matcher looks at its continuation on later states only\<close>

lemma extends_step:
  "rest st = c # cs \<Longrightarrow> extends N st (MState (Some c) cs (endIndex st + 1) (caps st))"
  unfolding extends_def by (intro exI [of _ "[c]"] exI [of _ "[]"]) simp

lemma extends_shorter:
  assumes "extends N st st'" and "endIndex st' \<noteq> endIndex st"
  shows "length (rest st') < length (rest st)"
  using assms unfolding extends_def by auto

lemma extends_close:
  assumes "extends N st st1"
  shows "extends (insert n N) st
     (MState (prev st1) (rest st1) (endIndex st1) ((n, x) # caps st1))"
proof -
  from assms obtain u new where
    "rest st = u @ rest st1" "endIndex st1 = endIndex st + int (length u)"
    "caps st1 = new @ caps st" "fst ` set new \<subseteq> N"
    unfolding extends_def by blast
  then show ?thesis
    unfolding extends_def
    by (intro exI [of _ u] exI [of _ "(n, x) # new"]) auto
qed

lemma step_cong:
  assumes "\<And>st'. extends UNIV st st' \<Longrightarrow> k1 st' = k2 st'"
  shows "step P k1 st = step P k2 st"
  using assms by (auto simp: step_def extends_step split: list.splits)

lemma rounds_greedy_cong:
  assumes f: "\<And>k1 k2 st. (\<And>st'. extends UNIV st st' \<Longrightarrow> k1 st' = k2 st') \<Longrightarrow> f k1 st = f k2 st"
  shows "(\<And>st'. extends UNIV st st' \<Longrightarrow> k1 st' = k2 st')
    \<Longrightarrow> rounds_greedy f n k1 st = rounds_greedy f n k2 st"
proof (induction n arbitrary: st)
  case 0
  then show ?case by (simp add: extends_refl)
next
  case (Suc n)
  have "f (progress st (rounds_greedy f n k1)) st = f (progress st (rounds_greedy f n k2)) st"
  proof (rule f)
    fix st1
    assume e: "extends UNIV st st1"
    have "rounds_greedy f n k1 st1 = rounds_greedy f n k2 st1"
    proof (rule Suc.IH)
      fix st'
      assume "extends UNIV st1 st'"
      with e have "extends UNIV st st'" by (rule extends_same)
      then show "k1 st' = k2 st'" by (rule Suc.prems)
    qed
    then show "progress st (rounds_greedy f n k1) st1 = progress st (rounds_greedy f n k2) st1"
      by (simp add: progress_def)
  qed
  moreover have "k1 st = k2 st"
    by (rule Suc.prems) (rule extends_refl)
  ultimately show ?case by (simp cong: option.case_cong)
qed

lemma rounds_lazy_cong:
  assumes f: "\<And>k1 k2 st. (\<And>st'. extends UNIV st st' \<Longrightarrow> k1 st' = k2 st') \<Longrightarrow> f k1 st = f k2 st"
  shows "(\<And>st'. extends UNIV st st' \<Longrightarrow> k1 st' = k2 st')
    \<Longrightarrow> rounds_lazy f n k1 st = rounds_lazy f n k2 st"
proof (induction n arbitrary: st)
  case 0
  then show ?case by (simp add: extends_refl)
next
  case (Suc n)
  have "f (progress st (rounds_lazy f n k1)) st = f (progress st (rounds_lazy f n k2)) st"
  proof (rule f)
    fix st1
    assume e: "extends UNIV st st1"
    have "rounds_lazy f n k1 st1 = rounds_lazy f n k2 st1"
    proof (rule Suc.IH)
      fix st'
      assume "extends UNIV st1 st'"
      with e have "extends UNIV st st'" by (rule extends_same)
      then show "k1 st' = k2 st'" by (rule Suc.prems)
    qed
    then show "progress st (rounds_lazy f n k1) st1 = progress st (rounds_lazy f n k2) st1"
      by (simp add: progress_def)
  qed
  moreover have "k1 st = k2 st"
    by (rule Suc.prems) (rule extends_refl)
  ultimately show ?case by (simp cong: option.case_cong)
qed

lemma match_text_cong:
  "(\<And>st'. extends UNIV st st' \<Longrightarrow> k1 st' = k2 st')
    \<Longrightarrow> match_text icase t k1 st = match_text icase t k2 st"
proof (induction t arbitrary: st)
  case Nil
  then show ?case by (simp add: extends_refl)
next
  case (Cons c t)
  have "step (same_chr icase c) (match_text icase t k1) st
      = step (same_chr icase c) (match_text icase t k2) st"
  proof (rule step_cong)
    fix st1
    assume e: "extends UNIV st st1"
    show "match_text icase t k1 st1 = match_text icase t k2 st1"
    proof (rule Cons.IH)
      fix st'
      assume "extends UNIV st1 st'"
      with e have "extends UNIV st st'" by (rule extends_same)
      then show "k1 st' = k2 st'" by (rule Cons.prems)
    qed
  qed
  then show ?case by simp
qed

lemma m_cong:
  "(\<And>st'. extends UNIV st st' \<Longrightarrow> k1 st' = k2 st') \<Longrightarrow> m icase r k1 st = m icase r k2 st"
proof (induction r arbitrary: k1 k2 st)
  case Empty
  then show ?case by (simp add: extends_refl)
next
  case (Seq r1 r2)
  have "m icase r1 (m icase r2 k1) st = m icase r1 (m icase r2 k2) st"
  proof (rule Seq.IH(1))
    fix st1
    assume e: "extends UNIV st st1"
    show "m icase r2 k1 st1 = m icase r2 k2 st1"
    proof (rule Seq.IH(2))
      fix st'
      assume "extends UNIV st1 st'"
      with e have "extends UNIV st st'" by (rule extends_same)
      then show "k1 st' = k2 st'" by (rule Seq.prems)
    qed
  qed
  then show ?case by simp
next
  case (Star r)
  have "rounds_greedy (m icase r) (length (rest st)) k1 st
      = rounds_greedy (m icase r) (length (rest st)) k2 st"
    by (rule rounds_greedy_cong [OF Star.IH Star.prems])
  then show ?case by (simp add: star_greedy_def)
next
  case (LazyStar r)
  have "rounds_lazy (m icase r) (length (rest st)) k1 st
      = rounds_lazy (m icase r) (length (rest st)) k2 st"
    by (rule rounds_lazy_cong [OF LazyStar.IH LazyStar.prems])
  then show ?case by (simp add: star_lazy_def)
next
  case WordB
  then show ?case by (simp add: boundary_def extends_refl)
next
  case (Group n r)
  have "m icase r (close_group n st k1) st = m icase r (close_group n st k2) st"
  proof (rule Group.IH)
    fix st1
    assume "extends UNIV st st1"
    then have "extends (insert n UNIV) st (MState (prev st1) (rest st1) (endIndex st1)
        ((n, rest st, endIndex st1 - endIndex st) # caps st1))"
      by (rule extends_close)
    then show "close_group n st k1 st1 = close_group n st k2 st1"
      by (simp add: close_group_def Group.prems)
  qed
  then show ?case by (simp add: in_group_def)
next
  case (BackRef n)
  then show ?case
    by (auto simp: back_ref_def extends_refl split: option.splits intro: match_text_cong)
qed (auto intro: step_cong)

subsection \<open>The bound on the rounds of a star is never reached\<close>

lemma no_round_at_end:
  assumes "rest st = []"
  shows "m icase r (progress st k) st = None"
proof (cases "m icase r (progress st k) st")
  case None
  then show ?thesis .
next
  case (Some z)
  from m_extends [OF this] obtain st' where e: "extends (groups_of r) st st'"
    and p: "progress st k st' = Some z" by blast
  from p have "endIndex st' \<noteq> endIndex st"
    by (auto simp: progress_def split: if_splits)
  from extends_shorter [OF e this] assms show ?thesis by simp
qed

lemma rounds_greedy_more:
  "length (rest st) \<le> n
    \<Longrightarrow> rounds_greedy (m icase r) (Suc n) k st = rounds_greedy (m icase r) n k st"
proof (induction n arbitrary: st)
  case 0
  then show ?case by (simp add: no_round_at_end)
next
  case (Suc n)
  let ?f = "m icase r"
  have "?f (progress st (rounds_greedy ?f (Suc n) k)) st = ?f (progress st (rounds_greedy ?f n k)) st"
  proof (rule m_cong)
    fix st1
    assume e: "extends UNIV st st1"
    show "progress st (rounds_greedy ?f (Suc n) k) st1 = progress st (rounds_greedy ?f n k) st1"
    proof (cases "endIndex st1 = endIndex st")
      case True
      then show ?thesis by (simp add: progress_def)
    next
      case False
      from extends_shorter [OF e False] Suc.prems have "length (rest st1) \<le> n" by simp
      from Suc.IH [OF this] False show ?thesis by (simp add: progress_def)
    qed
  qed
  then show ?case by (simp cong: option.case_cong)
qed

lemma rounds_lazy_more:
  "length (rest st) \<le> n
    \<Longrightarrow> rounds_lazy (m icase r) (Suc n) k st = rounds_lazy (m icase r) n k st"
proof (induction n arbitrary: st)
  case 0
  then show ?case by (simp add: no_round_at_end split: option.split)
next
  case (Suc n)
  let ?f = "m icase r"
  have "?f (progress st (rounds_lazy ?f (Suc n) k)) st = ?f (progress st (rounds_lazy ?f n k)) st"
  proof (rule m_cong)
    fix st1
    assume e: "extends UNIV st st1"
    show "progress st (rounds_lazy ?f (Suc n) k) st1 = progress st (rounds_lazy ?f n k) st1"
    proof (cases "endIndex st1 = endIndex st")
      case True
      then show ?thesis by (simp add: progress_def)
    next
      case False
      from extends_shorter [OF e False] Suc.prems have "length (rest st1) \<le> n" by simp
      from Suc.IH [OF this] False show ?thesis by (simp add: progress_def)
    qed
  qed
  then show ?case by (simp cong: option.case_cong)
qed

lemma rounds_greedy_enough:
  "length (rest st) \<le> n
    \<Longrightarrow> rounds_greedy (m icase r) n k st = rounds_greedy (m icase r) (length (rest st)) k st"
proof (induction "n - length (rest st)" arbitrary: n)
  case 0
  then show ?case by simp
next
  case (Suc d)
  then obtain n' where n: "n = Suc n'" and "length (rest st) \<le> n'" and "d = n' - length (rest st)"
    by (cases n) auto
  with Suc.hyps(1) [of n'] rounds_greedy_more [of st n' icase r k] show ?case by simp
qed

lemma rounds_lazy_enough:
  "length (rest st) \<le> n
    \<Longrightarrow> rounds_lazy (m icase r) n k st = rounds_lazy (m icase r) (length (rest st)) k st"
proof (induction "n - length (rest st)" arbitrary: n)
  case 0
  then show ?case by simp
next
  case (Suc d)
  then obtain n' where n: "n = Suc n'" and "length (rest st) \<le> n'" and "d = n' - length (rest st)"
    by (cases n) auto
  with Suc.hyps(1) [of n'] rounds_lazy_more [of st n' icase r k] show ?case by simp
qed

text \<open>So the stars satisfy the recursion by which the language defines them: one
  more round, which must consume input, then the star again.\<close>

lemma star_greedy_unfold:
  "star_greedy (m icase r) k st =
     (case m icase r (progress st (star_greedy (m icase r) k)) st of
        Some z \<Rightarrow> Some z
      | None \<Rightarrow> k st)"
proof -
  let ?f = "m icase r"
  have "rounds_greedy ?f (Suc (length (rest st))) k st =
     (case ?f (progress st (star_greedy ?f k)) st of Some z \<Rightarrow> Some z | None \<Rightarrow> k st)"
  proof -
    have "?f (progress st (rounds_greedy ?f (length (rest st)) k)) st
        = ?f (progress st (star_greedy ?f k)) st"
    proof (rule m_cong)
      fix st1
      assume e: "extends UNIV st st1"
      show "progress st (rounds_greedy ?f (length (rest st)) k) st1 = progress st (star_greedy ?f k) st1"
      proof (cases "endIndex st1 = endIndex st")
        case True
        then show ?thesis by (simp add: progress_def)
      next
        case False
        from extends_shorter [OF e False] have "length (rest st1) \<le> length (rest st)" by simp
        from rounds_greedy_enough [OF this] False show ?thesis
          by (simp add: progress_def star_greedy_def)
      qed
    qed
    then show ?thesis by (simp cong: option.case_cong)
  qed
  then show ?thesis
    by (simp add: star_greedy_def [of ?f k st] rounds_greedy_more del: rounds_greedy.simps)
qed

lemma star_lazy_unfold:
  "star_lazy (m icase r) k st =
     (case k st of
        Some z \<Rightarrow> Some z
      | None \<Rightarrow> m icase r (progress st (star_lazy (m icase r) k)) st)"
proof -
  let ?f = "m icase r"
  have "rounds_lazy ?f (Suc (length (rest st))) k st =
     (case k st of Some z \<Rightarrow> Some z | None \<Rightarrow> ?f (progress st (star_lazy ?f k)) st)"
  proof -
    have "?f (progress st (rounds_lazy ?f (length (rest st)) k)) st
        = ?f (progress st (star_lazy ?f k)) st"
    proof (rule m_cong)
      fix st1
      assume e: "extends UNIV st st1"
      show "progress st (rounds_lazy ?f (length (rest st)) k) st1 = progress st (star_lazy ?f k) st1"
      proof (cases "endIndex st1 = endIndex st")
        case True
        then show ?thesis by (simp add: progress_def)
      next
        case False
        from extends_shorter [OF e False] have "length (rest st1) \<le> length (rest st)" by simp
        from rounds_lazy_enough [OF this] False show ?thesis
          by (simp add: progress_def star_lazy_def)
      qed
    qed
    then show ?thesis by (simp cong: option.case_cong)
  qed
  then show ?thesis
    by (simp add: star_lazy_def [of ?f k st] rounds_lazy_more del: rounds_lazy.simps)
qed

subsection \<open>Groups take part, and the patterns of the loops consume input\<close>

lemma canon_h: "canon CHR ''h'' = CHR ''H''"
  by (simp add: canon_def is_lower_def code_def)

lemma canon_H: "canon a = CHR ''H'' \<Longrightarrow> a = CHR ''h'' \<or> a = CHR ''H''"
  by (cases a) (auto simp: canon_def split: if_splits)

lemma map_of_extended:
  assumes "fst ` set new \<subseteq> N" and "n \<notin> N"
  shows "map_of (new @ (n, x) # cs) n = Some x"
proof -
  from assms have "map_of new n = None"
    by (auto simp: map_of_eq_None_iff)
  then show ?thesis by (simp add: map_add_def)
qed


lemma m_seqs_append: "m icase (seqs (xs @ ys)) k = m icase (seqs xs) (m icase (seqs ys) k)"
  by (induction xs) (simp_all add: seqs_def)

lemma groups_of_seqs: "groups_of (seqs rs) = \<Union> (groups_of ` set rs)"
  by (induction rs) (simp_all add: seqs_def)

lemma group_takes_part:
  assumes "m icase (seqs (pre @ Group n g # post)) Some st = Some z"
    and "n \<notin> groups_of (seqs post)"
  shows "map_of (caps z) n \<noteq> None"
proof -
  let ?K = "m icase (seqs post) Some"
  from assms(1) have "m icase (seqs pre) (m icase (seqs (Group n g # post)) Some) st = Some z"
    by (simp add: m_seqs_append)
  from m_extends [OF this] obtain st1 where "m icase (seqs (Group n g # post)) Some st1 = Some z"
    by blast
  then have "m icase g (close_group n st1 ?K) st1 = Some z"
    by (simp add: seqs_def in_group_def)
  from m_extends [OF this] obtain st2 where "close_group n st1 ?K st2 = Some z"
    by blast
  then obtain x where "?K (MState (prev st2) (rest st2) (endIndex st2) ((n, x) # caps st2)) = Some z"
    by (simp add: close_group_def)
  from m_extends [OF this] obtain new where cz: "caps z = new @ (n, x) # caps st2"
    and new: "fst ` set new \<subseteq> groups_of (seqs post)"
    unfolding extends_def by auto
  from map_of_extended [OF new assms(2)] cz show ?thesis by simp
qed

lemma captured_takes_part: "map_of cs n \<noteq> None \<Longrightarrow> captured cs n \<noteq> None"
  by (auto simp: captured_def split: option.splits)

lemma element_group_takes_part:
  assumes "match_at True (re_element tag) p s = Some mt"
  shows "captured (groups mt) 1 \<noteq> None"
proof -
  define pre where "pre = [Chr CHR ''<''] @ chars tag @
      [WordB, Star (NotChr CHR ''>''), Chr CHR ''>'']"
  define post where "post = [Chr CHR ''<'', Chr CHR ''/''] @ chars tag @ [Chr CHR ''>'']"
  have shape: "re_element tag = seqs (pre @ Group 1 (LazyStar AnyChr) # post)"
    by (simp add: re_element_def pre_def post_def)
  have free: "1 \<notin> groups_of (seqs post)"
    by (simp add: post_def groups_of_seqs chars_def)
  from assms obtain z where z: "m True (re_element tag) Some (MState p s 0 []) = Some z"
    and mt: "groups mt = caps z"
    by (auto simp: match_at_def split: option.splits)
  from group_takes_part [OF z [unfolded shape] free] mt show ?thesis
    by (simp add: captured_takes_part)
qed

lemma attr_group_takes_part:
  assumes "match_at True (re_attr name q) p s = Some mt"
  shows "captured (groups mt) 1 \<noteq> None"
proof -
  define pre where "pre = [WordB] @ chars name @
      [Star Space, Chr CHR ''='', Star Space, Chr q]"
  have shape: "re_attr name q = seqs (pre @ Group 1 (Star (NotChr q)) # [Chr q])"
    by (simp add: re_attr_def pre_def)
  have free: "1 \<notin> groups_of (seqs [Chr q])"
    by (simp add: groups_of_seqs)
  from assms obtain z where z: "m True (re_attr name q) Some (MState p s 0 []) = Some z"
    and mt: "groups mt = caps z"
    by (auto simp: match_at_def split: option.splits)
  from group_takes_part [OF z [unfolded shape] free] mt show ?thesis
    by (simp add: captured_takes_part)
qed

lemma match_at_consumes:
  assumes "match_at icase (seqs (Chr c # rs)) p s = Some mt"
  shows "0 < len mt"
proof -
  from assms obtain z where z: "m icase (seqs (Chr c # rs)) Some (MState p s 0 []) = Some z"
    and mt: "len mt = endIndex z"
    by (auto simp: match_at_def split: option.splits)
  from z have "step (same_chr icase c) (m icase (seqs rs) Some) (MState p s 0 []) = Some z"
    by (simp add: seqs_def)
  from step_result [OF this] obtain d ds where
    "m icase (seqs rs) Some (MState (Some d) ds 1 []) = Some z"
    by auto
  from m_extends [OF this] have "1 \<le> endIndex z"
    unfolding extends_def by auto
  with mt show ?thesis by simp
qed

lemma element_match_consumes:
  "match_at True (re_element tag) p s = Some mt \<Longrightarrow> 0 < len mt"
  by (rule match_at_consumes [of True "CHR ''<''" _ p s]) (simp add: re_element_def)

lemma heading_match_consumes:
  "match_at True re_heading p s = Some mt \<Longrightarrow> 0 < len mt"
  by (rule match_at_consumes [of True "CHR ''<''" _ p s]) (simp add: re_heading_def)

section \<open>The two scores\<close>


text \<open>
  Claim C9. For every page, the scanability score is one of 40, 60, 80 and 100: three
  penalties of 20 take at most 60 from 100, so the clamp at 0 never acts.
\<close>

theorem scanability_four_values:
  "scanabilityScore (content_density u html) \<in> {40, 60, 80, 100}"
  by (simp add: content_density_def Let_def)


text \<open>
  Claim C3. For every page, the accessibility score is
  \<open>max 0 (100 - 10 [no h1] - 10 [more than one h1] - 2 * imagesMissingAlt
  - 3 * unlabeledButtons - 5 * headingOrderIssues)\<close>; the two h1 penalties are two
  conditionals, each with its own test. A clean page scores 100; a page without h1,
  with one image without alt, one empty button and one heading jump scores 80.
\<close>

theorem accessibility_formula:
  \<open>accessibilityScore (accessibility_surface u html) =
     max 0 (100 - (if h1Count (accessibility_surface u html) = 0 then 10 else 0)
                - (if h1Count (accessibility_surface u html) > 1 then 10 else 0)
                - 2 * imagesMissingAlt (accessibility_surface u html)
                - 3 * unlabeledButtons (accessibility_surface u html)
                - 5 * headingOrderIssues (accessibility_surface u html))
   \<and> h1Count (accessibility_surface u html) = int (length (match_all True (re_element ''h1'') html))
   \<and> imagesMissingAlt (accessibility_surface u html) = imagesMissingAlt_of html
   \<and> unlabeledButtons (accessibility_surface u html) = unlabeledButtons_of html
   \<and> headingOrderIssues (accessibility_surface u html) = headingOrderIssues_of html
   \<and> accessibility_surface_check u \<lparr>ok = True, status = n, body = html\<rparr>
       = Inr (accessibility_surface u html)
   \<and> accessibilityScore (accessibility_surface []
         ''<h1>T</h1><img src="a.png" alt="cat"><p>Hello <b>world</b></p>'') = 100
   \<and> accessibilityScore (accessibility_surface []
         ''<h2>T</h2><h6>x</h6><img src="a.png"><button> </button><p>Hello</p>'') = 80\<close>
proof -
  have general: "accessibilityScore (accessibility_surface u html) =
     max 0 (100 - (if h1Count (accessibility_surface u html) = 0 then 10 else 0)
                - (if h1Count (accessibility_surface u html) > 1 then 10 else 0)
                - 2 * imagesMissingAlt (accessibility_surface u html)
                - 3 * unlabeledButtons (accessibility_surface u html)
                - 5 * headingOrderIssues (accessibility_surface u html))
   \<and> h1Count (accessibility_surface u html) = int (length (match_all True (re_element ''h1'') html))
   \<and> imagesMissingAlt (accessibility_surface u html) = imagesMissingAlt_of html
   \<and> unlabeledButtons (accessibility_surface u html) = unlabeledButtons_of html
   \<and> headingOrderIssues (accessibility_surface u html) = headingOrderIssues_of html
   \<and> accessibility_surface_check u \<lparr>ok = True, status = n, body = html\<rparr>
       = Inr (accessibility_surface u html)"
    by (simp add: accessibility_surface_def accessibility_surface_check_def Let_def)
  have ex1: \<open>accessibilityScore (accessibility_surface []
         ''<h1>T</h1><img src="a.png" alt="cat"><p>Hello <b>world</b></p>'') = 100\<close>
    by code_simp
  have ex2: \<open>accessibilityScore (accessibility_surface []
         ''<h2>T</h2><h6>x</h6><img src="a.png"><button> </button><p>Hello</p>'') = 80\<close>
    by code_simp
  from general ex1 ex2 show ?thesis by blast
qed

section \<open>The notes of the density scorer\<close>

text \<open>
  Claim C1, as stated: the density scorer emits three notes, for paragraph length,
  images and headings in this order, and each note is the negative one exactly when
  the penalty of its heuristic applies; for paragraph length, exactly when the average
  is above 100. The code tests the note against 80: a page with one paragraph of 81
  words gets the negative note and no paragraph penalty (its score is 60, for the
  missing image and the missing heading).
\<close>

theorem paragraph_note_threshold_counterexample:
  "avgParagraphLength_of (''<p>'' @ concat (replicate 81 ''a '') @ ''</p>'') = 81
   \<and> scanabilityScore (content_density [] (''<p>'' @ concat (replicate 81 ''a '') @ ''</p>'')) = 60
   \<and> hd (notes (content_density [] (''<p>'' @ concat (replicate 81 ''a '') @ ''</p>'')))
       = note_paragraphs_long
   \<and> notes (content_density [] (''<p>'' @ concat (replicate 81 ''a '') @ ''</p>''))
       \<noteq> notes_spec (''<p>'' @ concat (replicate 81 ''a '') @ ''</p>'')"
proof -
  define page where "page = ''<p>'' @ concat (replicate 81 ''a '') @ ''</p>''"
  have "paragraphWordCounts page = [81]"
    unfolding page_def by code_simp
  then have avg: "avgParagraphLength_of page = 81"
    by (simp add: avgParagraphLength_of_def)
  have img: "match_all True re_img page = []"
    unfolding page_def by code_simp
  have hdg: "match_all True re_heading_open page = []"
    unfolding page_def by code_simp
  have score: "scanabilityScore (content_density [] page) = 60"
    by (simp add: content_density_def Let_def avg img hdg)
  have code_note: "hd (notes (content_density [] page)) = note_paragraphs_long"
    by (simp add: content_density_def Let_def avg)
  have spec_note: "hd (notes_spec page) = note_paragraphs_ok"
    by (simp add: notes_spec_def avg)
  have "note_paragraphs_long \<noteq> note_paragraphs_ok"
    by (simp add: note_paragraphs_long_def note_paragraphs_ok_def)
  with code_note spec_note have "notes (content_density [] page) \<noteq> notes_spec page"
    by metis
  with avg score code_note show ?thesis
    unfolding page_def by blast
qed

text \<open>
  Claim C1, amended: the density scorer emits exactly three notes, for paragraph
  length, images and headings in this order. The paragraph note is the negative one
  exactly when the average paragraph length is above 80 (the penalty starts above
  100), the image note exactly when there is no image, and the heading note exactly
  when there is no heading.
\<close>

theorem density_notes:
  "notes (content_density u html) =
     [if avgParagraphLength_of html > 80 then note_paragraphs_long else note_paragraphs_ok,
      if imageCount (content_density u html) = 0 then note_no_images else note_images,
      if headingCount (content_density u html) = 0 then note_no_headings else note_headings]
   \<and> note_paragraphs_long \<noteq> note_paragraphs_ok
   \<and> note_no_images \<noteq> note_images
   \<and> note_no_headings \<noteq> note_headings"
  by (simp add: content_density_def Let_def note_paragraphs_long_def note_paragraphs_ok_def
      note_no_images_def note_images_def note_no_headings_def note_headings_def)

section \<open>Heading order\<close>

lemma order_loop_count:
  "1 \<le> i \<Longrightarrow> order_loop levels i acc =
     acc + int (length (filter (\<lambda>(p, c). jump p c) (drop (i - 1) (zip levels (tl levels)))))"
proof (induction levels i acc rule: order_loop.induct)
  case (1 levels i issues)
  show ?case
  proof (cases "i < length levels")
    case True
    let ?z = "zip levels (tl levels)"
    from True "1.prems" have len: "i - 1 < length ?z" by simp
    from True "1.prems" have nth: "?z ! (i - 1) = (levels ! (i - 1), levels ! i)"
      by (simp add: nth_tl)
    from len have "drop (i - 1) ?z = ?z ! (i - 1) # drop (Suc (i - 1)) ?z"
      by (rule Cons_nth_drop_Suc [symmetric])
    with nth "1.prems" have dr: "drop (i - 1) ?z = (levels ! (i - 1), levels ! i) # drop i ?z"
      by simp
    from True "1.prems" "1.IH" show ?thesis
      by (subst order_loop.simps) (simp add: dr [unfolded One_nat_def])
  next
    case False
    then show ?thesis
      by (subst order_loop.simps) simp
  qed
qed

lemma heading_capture:
  assumes "match_at True re_heading p s = Some mt"
  shows "\<exists>a b. capture mt 1 = [a, b] \<and> canon a = CHR ''H'' \<and> 49 \<le> code b \<and> code b \<le> 54"
proof -
  define tail where "tail = seqs [WordB, Star (NotChr CHR ''>''), Chr CHR ''>'',
     Group 2 (LazyStar AnyChr), Chr CHR ''<'', Chr CHR ''/'', BackRef 1, Chr CHR ''>'']"
  define name where "name = Seq (Chr CHR ''h'') (Seq (Range CHR ''1'' CHR ''6'') Empty)"
  have split: "re_heading = Seq (Chr CHR ''<'') (Seq (Group 1 name) tail)"
    by (simp add: re_heading_def seqs_def tail_def name_def)
  have tail_groups: "groups_of tail = {2}"
    by (simp add: tail_def seqs_def)
  from assms obtain z where z: "m True re_heading Some (MState p s 0 []) = Some z"
    and mt: "mt = RMatch s (endIndex z) (caps z)"
    by (auto simp: match_at_def split: option.splits)
  let ?K = "m True tail Some"
  from z have "step (same_chr True CHR ''<'') (in_group 1 (m True name) ?K) (MState p s 0 []) = Some z"
    by (simp add: split)
  from step_result [OF this] obtain c0 r0 where
    "in_group 1 (m True name) ?K (MState (Some c0) r0 1 []) = Some z"
    by auto
  then have "step (same_chr True CHR ''h'')
       (step (\<lambda>d. code CHR ''1'' \<le> code d \<and> code d \<le> code CHR ''6'')
          (close_group 1 (MState (Some c0) r0 1 []) ?K)) (MState (Some c0) r0 1 []) = Some z"
    by (simp add: in_group_def name_def)
  from step_result [OF this] obtain a r1 where r0: "r0 = a # r1" and a: "same_chr True CHR ''h'' a"
    and "step (\<lambda>d. code CHR ''1'' \<le> code d \<and> code d \<le> code CHR ''6'')
          (close_group 1 (MState (Some c0) r0 1 []) ?K) (MState (Some a) r1 2 []) = Some z"
    by auto
  from step_result [OF this(3)] obtain b r2 where r1: "r1 = b # r2"
    and b: "code CHR ''1'' \<le> code b \<and> code b \<le> code CHR ''6''"
    and "close_group 1 (MState (Some c0) r0 1 []) ?K (MState (Some b) r2 3 []) = Some z"
    by auto
  then have "?K (MState (Some b) r2 3 [(1, a # b # r2, 2)]) = Some z"
    by (simp add: close_group_def r0 r1)
  from m_extends [OF this] have "extends {2} (MState (Some b) r2 3 [(1, a # b # r2, 2)]) z"
    by (simp add: tail_groups)
  then obtain new where cz: "caps z = new @ [(1, a # b # r2, 2)]" and new: "fst ` set new \<subseteq> {2}"
    unfolding extends_def by auto
  have "map_of (new @ [(1, a # b # r2, 2)]) 1 = Some (a # b # r2, 2)"
    by (rule map_of_extended [OF new]) simp
  with cz have "map_of (caps z) 1 = Some (a # b # r2, 2)"
    by (simp only:)
  then have "capture mt 1 = [a, b]"
    by (simp add: capture_def captured_def mt)
  moreover from a have "canon a = CHR ''H''"
    by (simp add: same_chr_def canon_h)
  moreover from b have "49 \<le> code b \<and> code b \<le> 54"
    by (simp add: code_def)
  ultimately show ?thesis by blast
qed

lemma scan_from_match_at:
  "mt \<in> set (scan icase r p s k) \<Longrightarrow> \<exists>p' s'. match_at icase r p' s' = Some mt"
proof (induction s arbitrary: p k)
  case Nil
  then show ?case by (auto split: if_splits option.splits)
next
  case (Cons c cs)
  then show ?case by (auto split: if_splits option.splits)
qed

lemma level_of_capture:
  assumes "canon a = CHR ''H''" and "49 \<le> code b" and "code b \<le> 54"
  shows "parseInt (remove_first CHR ''h'' (toLowerCase [a, b])) = Some (code b - 48)"
proof -
  from assms(1) have "a = CHR ''h'' \<or> a = CHR ''H''" by (rule canon_H)
  then have "toLowerCase [a, b] = [CHR ''h'', b]"
    using assms(2,3) by (auto simp: toLowerCase_def is_upper_def code_def)
  moreover from assms(2,3) have "\<not> is_space b" and "is_digit b"
    by (auto simp: is_space_def is_digit_def)
  ultimately show ?thesis
    by (simp add: parseInt_def)
qed

lemma heading_levels_range: "set (headingLevels html) \<subseteq> Some ` {1..6}"
proof
  fix l
  assume "l \<in> set (headingLevels html)"
  then obtain mt where "mt \<in> set (match_all True re_heading html)"
    and l: "l = parseInt (remove_first CHR ''h'' (toLowerCase (capture mt 1)))"
    by (auto simp: headingLevels_def)
  then obtain p s where "match_at True re_heading p s = Some mt"
    using scan_from_match_at [of mt True re_heading None html 0] by (auto simp: match_all_def)
  from heading_capture [OF this] obtain a b where
    "capture mt 1 = [a, b]" "canon a = CHR ''H''" "49 \<le> code b" "code b \<le> 54"
    by blast
  with l level_of_capture [of a b] have "l = Some (code b - 48)" and "1 \<le> code b - 48" and "code b - 48 \<le> 6"
    by simp_all
  then show "l \<in> Some ` {1..6}" by simp
qed

lemma order_issues_of_count:
  "headingOrderIssues_of html =
     int (length (filter (\<lambda>(p, c). jump p c)
            (zip (headingLevels html) (tl (headingLevels html)))))"
  unfolding headingOrderIssues_of_def by (simp add: order_loop_count)

text \<open>
  Claim C5. For every page, \<open>headingOrderIssues\<close> is the number of pairs of
  neighbours (previous, current) in the sequence of heading levels, in document order
  and over all of h1 to h6 (every level is a number from 1 to 6), with
  \<open>current - previous > 2\<close>. A decrease, an equal level and an increase of at most 2
  are not counted, and the first heading is only ever the previous one of a pair (a
  single heading gives no issue). The headings h1, h2, h5 give one issue; h1, h2, h3
  give none.
\<close>

theorem heading_order_issues_count:
  "headingOrderIssues (accessibility_surface u html) = headingOrderIssues_of html
   \<and> set (headingLevels html) \<subseteq> Some ` {1..6}
   \<and> headingOrderIssues_of html =
       int (length (filter (\<lambda>(p, c). jump p c)
              (zip (headingLevels html) (tl (headingLevels html)))))
   \<and> jump (Some a) (Some b) = (b - a > 2)
   \<and> order_loop [l] 1 0 = 0
   \<and> headingLevels ''<h1>a</h1><h2>b</h2><h5>c</h5>'' = [Some 1, Some 2, Some 5]
   \<and> headingOrderIssues_of ''<h1>a</h1><h2>b</h2><h5>c</h5>'' = 1
   \<and> headingLevels ''<h1>a</h1><h2>b</h2><h3>c</h3>'' = [Some 1, Some 2, Some 3]
   \<and> headingOrderIssues_of ''<h1>a</h1><h2>b</h2><h3>c</h3>'' = 0"
proof -
  have field: "headingOrderIssues (accessibility_surface u html) = headingOrderIssues_of html"
    by (simp add: accessibility_surface_def Let_def)
  have count: "headingOrderIssues_of html =
       int (length (filter (\<lambda>(p, c). jump p c)
              (zip (headingLevels html) (tl (headingLevels html)))))"
    by (rule order_issues_of_count)
  have rule: "jump (Some a) (Some b) = (b - a > 2)"
    by (simp add: jump_def)
  have single: "order_loop [l] 1 0 = 0"
    by (simp add: order_loop.simps)
  have l5: "headingLevels ''<h1>a</h1><h2>b</h2><h5>c</h5>'' = [Some 1, Some 2, Some 5]"
    by code_simp
  have l3: "headingLevels ''<h1>a</h1><h2>b</h2><h3>c</h3>'' = [Some 1, Some 2, Some 3]"
    by code_simp
  have i5: "headingOrderIssues_of ''<h1>a</h1><h2>b</h2><h5>c</h5>'' = 1"
    unfolding order_issues_of_count l5 by (simp add: jump_def)
  have i3: "headingOrderIssues_of ''<h1>a</h1><h2>b</h2><h3>c</h3>'' = 0"
    unfolding order_issues_of_count l3 by (simp add: jump_def)
  from field heading_levels_range [of html] count rule single l5 i5 l3 i3 show ?thesis
    by blast
qed

section \<open>Alt text and button labels\<close>






text \<open>
  Claim C10. There are image tags without any alt attribute that are not counted as
  missing their alt text: in \<^verbatim>\<open><img src="x.png" data-alt="cat">\<close> the hyphen makes a
  word boundary before \<^verbatim>\<open>alt\<close>, and the code reads the alt text \<^verbatim>\<open>cat\<close>. The same holds
  for the aria-label of a button: \<^verbatim>\<open>data-aria-label\<close> supplies a label.
\<close>

theorem hyphenated_attribute_is_read:
  \<open>imgTags ''<img src="x.png" data-alt="cat">'' = [''<img src="x.png" data-alt="cat">'']
   \<and> attribute_spec ''alt'' ''<img src="x.png" data-alt="cat">'' = None
   \<and> attrValue ''alt'' ''<img src="x.png" data-alt="cat">'' = Some ''cat''
   \<and> imagesMissingAlt_of ''<img src="x.png" data-alt="cat">'' = 0
   \<and> buttonBlocks ''<button data-aria-label="Close"></button>''
       = [''<button data-aria-label="Close"></button>'']
   \<and> attribute_spec ''aria-label'' ''<button data-aria-label="Close"></button>'' = None
   \<and> attrValue ''aria-label'' ''<button data-aria-label="Close"></button>'' = Some ''Close''
   \<and> unlabeledButtons_of ''<button data-aria-label="Close"></button>'' = 0\<close>
  by code_simp

section \<open>The Text Normalizer\<close>

subsection \<open>What the two replacements compute\<close>

lemma step_Nil: "step P k (MState p [] e cs) = None"
  by (simp add: step_def)

lemma step_Cons:
  "step P k (MState p (d # ds) e cs) = (if P d then k (MState (Some d) ds (e + 1) cs) else None)"
  by (simp add: step_def)

lemma same_chr_exact: "same_chr False c = (\<lambda>d. c = d)"
  by (simp add: fun_eq_iff same_chr_def)

lemma m_NotChr: "m icase (NotChr c) = step (\<lambda>d. d \<noteq> c)"
  by (rule ext) simp

lemma m_Space: "m icase Space = step is_space"
  by (rule ext) simp

lemma rounds_greedy_until:
  "length s \<le> n \<Longrightarrow>
   rounds_greedy (step (\<lambda>d. d \<noteq> c)) n (step ((=) c) k) (MState p s e cs)
     = (case dropWhile (\<lambda>d. d \<noteq> c) s of
          [] \<Rightarrow> None
        | d # ds \<Rightarrow> k (MState (Some d) ds (e + int (length (takeWhile (\<lambda>d. d \<noteq> c) s)) + 1) cs))"
proof (induction n arbitrary: s p e)
  case 0
  then show ?case by (simp add: step_Nil)
next
  case (Suc n)
  show ?case
  proof (cases s)
    case Nil
    then show ?thesis by (simp add: step_Nil)
  next
    case (Cons d ds)
    show ?thesis
    proof (cases "d = c")
      case True
      with Cons show ?thesis by (simp add: step_Cons)
    next
      case False
      from Suc.prems Cons have len: "length ds \<le> n" by simp
      let ?f = "step (\<lambda>d. d \<noteq> c)" and ?k = "step ((=) c) k"
      from Cons False
      have "rounds_greedy ?f (Suc n) ?k (MState p s e cs)
          = rounds_greedy ?f n ?k (MState (Some d) ds (e + 1) cs)"
        by (simp add: step_Cons progress_def split: option.split)
      also have "\<dots> = (case dropWhile (\<lambda>d. d \<noteq> c) ds of
          [] \<Rightarrow> None
        | x # xs \<Rightarrow> k (MState (Some x) xs
            (e + 1 + int (length (takeWhile (\<lambda>d. d \<noteq> c) ds)) + 1) cs))"
        by (rule Suc.IH [OF len])
      also have "\<dots> = (case dropWhile (\<lambda>d. d \<noteq> c) s of
          [] \<Rightarrow> None
        | x # xs \<Rightarrow> k (MState (Some x) xs
            (e + int (length (takeWhile (\<lambda>d. d \<noteq> c) s)) + 1) cs))"
      proof -
        from Cons False have tw: "takeWhile (\<lambda>d. d \<noteq> c) s = d # takeWhile (\<lambda>d. d \<noteq> c) ds"
          and dw: "dropWhile (\<lambda>d. d \<noteq> c) s = dropWhile (\<lambda>d. d \<noteq> c) ds"
          by simp_all
        show ?thesis
          unfolding tw dw by (simp add: add.assoc add.commute cong: list.case_cong)
      qed
      finally show ?thesis .
    qed
  qed
qed

lemma rounds_greedy_all:
  "length s \<le> n \<Longrightarrow>
   \<exists>p'. rounds_greedy (step P) n Some (MState p s e cs)
     = Some (MState p' (dropWhile P s) (e + int (length (takeWhile P s))) cs)"
proof (induction n arbitrary: s p e)
  case 0
  then show ?case by simp
next
  case (Suc n)
  show ?case
  proof (cases s)
    case Nil
    then show ?thesis by (simp add: step_Nil step_Cons)
  next
    case (Cons d ds)
    show ?thesis
    proof (cases "P d")
      case False
      with Cons show ?thesis by (simp add: step_Nil step_Cons)
    next
      case True
      from Suc.prems Cons have "length ds \<le> n" by simp
      from Suc.IH [OF this, of "Some d" "e + 1"] obtain p' where
        "rounds_greedy (step P) n Some (MState (Some d) ds (e + 1) cs)
           = Some (MState p' (dropWhile P ds) (e + 1 + int (length (takeWhile P ds))) cs)"
        by blast
      with Cons True show ?thesis
        by (simp add: step_Cons progress_def add.assoc)
    qed
  qed
qed

lemma match_at_markup:
  "match_at False re_markup p s =
     (case s of
        [] \<Rightarrow> None
      | c # cs \<Rightarrow>
          if c = CHR ''<'' \<and> CHR ''>'' \<in> set cs
          then Some (RMatch s (2 + int (length (takeWhile (\<lambda>d. d \<noteq> CHR ''>'') cs))) [])
          else None)"
proof (cases s)
  case Nil
  then show ?thesis
    by (simp add: match_at_def re_markup_def seqs_def step_Nil)
next
  case (Cons c cs)
  show ?thesis
  proof (cases "c = CHR ''<''")
    case False
    with Cons show ?thesis
      by (simp add: match_at_def re_markup_def seqs_def step_Cons same_chr_exact)
  next
    case True
    have run: "m False re_markup Some (MState p (CHR ''<'' # cs) 0 [])
        = rounds_greedy (step (\<lambda>d. d \<noteq> CHR ''>'')) (length cs) (step ((=) CHR ''>'') Some)
            (MState (Some CHR ''<'') cs 1 [])"
      by (simp add: re_markup_def seqs_def same_chr_exact star_greedy_def m_NotChr step_Cons)
    show ?thesis
    proof (cases "CHR ''>'' \<in> set cs")
      case no: False
      then have dw: "dropWhile (\<lambda>d. d \<noteq> CHR ''>'') cs = []"
        by (auto simp: dropWhile_eq_Nil_conv)
      have "m False re_markup Some (MState p (CHR ''<'' # cs) 0 []) = None"
        unfolding run rounds_greedy_until [OF le_refl] dw by simp
      with Cons True no show ?thesis
        by (simp add: match_at_def)
    next
      case yes: True
      then obtain x xs where dw: "dropWhile (\<lambda>d. d \<noteq> CHR ''>'') cs = x # xs"
        by (cases "dropWhile (\<lambda>d. d \<noteq> CHR ''>'') cs") (auto simp: dropWhile_eq_Nil_conv)
      have "m False re_markup Some (MState p (CHR ''<'' # cs) 0 [])
          = Some (MState (Some x) xs (1 + int (length (takeWhile (\<lambda>d. d \<noteq> CHR ''>'') cs)) + 1) [])"
        unfolding run rounds_greedy_until [OF le_refl] dw by simp
      with Cons True yes show ?thesis
        by (simp add: match_at_def)
    qed
  qed
qed

lemma match_at_spaces:
  "match_at False re_spaces p s =
     (case s of
        [] \<Rightarrow> None
      | c # cs \<Rightarrow>
          if is_space c
          then Some (RMatch s (1 + int (length (takeWhile is_space cs))) [])
          else None)"
proof (cases s)
  case Nil
  then show ?thesis
    by (simp add: match_at_def re_spaces_def Plus_def step_Nil step_Cons)
next
  case (Cons c cs)
  obtain p' where "rounds_greedy (step is_space) (length cs) Some (MState (Some c) cs 1 [])
     = Some (MState p' (dropWhile is_space cs) (1 + int (length (takeWhile is_space cs))) [])"
    using rounds_greedy_all [of cs "length cs" is_space "Some c" 1 "[]"] by auto
  with Cons show ?thesis
    by (simp add: match_at_def re_spaces_def Plus_def star_greedy_def m_Space step_Cons)
qed

lemma drop_takeWhile_tl: "drop (Suc (length (takeWhile P xs))) xs = tl (dropWhile P xs)"
  by (simp add: dropWhile_eq_drop tl_drop drop_Suc)

lemma subst_markup:
  "subst False re_markup rep p s k = markup_to rep (drop (nat k) s)"
proof (induction s arbitrary: p k)
  case Nil
  then show ?case by (simp add: match_at_markup)
next
  case (Cons c cs)
  show ?case
  proof (cases "0 < k")
    case True
    then have "drop (nat k) (c # cs) = drop (nat (k - 1)) cs"
      by (cases "nat k") (simp_all add: nat_diff_distrib)
    with True Cons.IH [of "Some c" "k - 1"] show ?thesis by simp
  next
    case False
    then have k0: "nat k = 0" by simp
    show ?thesis
    proof (cases "c = CHR ''<'' \<and> CHR ''>'' \<in> set cs")
      case no: False
      with False k0 Cons.IH [of "Some c" 0] show ?thesis
        by (auto simp: match_at_markup)
    next
      case yes: True
      let ?n = "length (takeWhile (\<lambda>d. d \<noteq> CHR ''>'') cs)"
      have "nat (1 + int ?n) = Suc ?n" by simp
      with False k0 yes Cons.IH [of "Some c" "1 + int ?n"] show ?thesis
        by (auto simp: match_at_markup drop_takeWhile_tl)
    qed
  qed
qed

lemma subst_spaces:
  "subst False re_spaces '' '' p s k = collapse (drop (nat k) s)"
proof (induction s arbitrary: p k)
  case Nil
  then show ?case by (simp add: match_at_spaces)
next
  case (Cons c cs)
  show ?case
  proof (cases "0 < k")
    case True
    then have "drop (nat k) (c # cs) = drop (nat (k - 1)) cs"
      by (cases "nat k") (simp_all add: nat_diff_distrib)
    with True Cons.IH [of "Some c" "k - 1"] show ?thesis by simp
  next
    case False
    then have k0: "nat k = 0" by simp
    show ?thesis
    proof (cases "is_space c")
      case no: False
      with False k0 Cons.IH [of "Some c" 0] show ?thesis
        by (simp add: match_at_spaces)
    next
      case yes: True
      let ?n = "length (takeWhile is_space cs)"
      have "nat (int ?n) = ?n" by simp
      with False k0 yes Cons.IH [of "Some c" "int ?n"] show ?thesis
        by (simp add: match_at_spaces dropWhile_eq_drop)
    qed
  qed
qed

lemma stripTags_pipeline: "stripTags s = trim (collapse (markup_to '' '' s))"
  by (simp add: stripTags_def replace_all_def subst_markup subst_spaces)

subsection \<open>Normalized texts\<close>

lemma no_markup_id: "no_markup x \<Longrightarrow> markup_to rep x = x"
  by (induction x) auto

lemma set_markup_to: "set (markup_to rep s) \<subseteq> set s \<union> set rep"
proof (induction rep s rule: markup_to.induct)
  case (1 rep)
  then show ?case by simp
next
  case (2 rep c cs)
  have "set (tl (dropWhile (\<lambda>d. d \<noteq> CHR ''>'') cs)) \<subseteq> set cs"
    by (metis list.set_sel(2) set_dropWhileD subsetI tl_Nil)
  with 2 show ?case by auto
qed

lemma no_markup_append_plain:
  "CHR ''<'' \<notin> set a \<Longrightarrow> no_markup (a @ b) = no_markup b"
  by (induction a) auto

lemma no_markup_suffix: "no_markup (a @ b) \<Longrightarrow> no_markup b"
  by (induction a) auto

lemma no_markup_prefix: "no_markup (a @ b) \<Longrightarrow> no_markup a"
  by (induction a) auto

lemma no_markup_markup_to:
  "CHR ''<'' \<notin> set rep \<Longrightarrow> CHR ''>'' \<notin> set rep \<Longrightarrow> no_markup (markup_to rep s)"
proof (induction rep s rule: markup_to.induct)
  case (1 rep)
  then show ?case by simp
next
  case (2 rep c cs)
  show ?case
  proof (cases "c = CHR ''<'' \<and> CHR ''>'' \<in> set cs")
    case True
    with 2 show ?thesis by (simp add: no_markup_append_plain)
  next
    case False
    from set_markup_to [of rep cs] "2.prems"
    have "CHR ''>'' \<notin> set cs \<Longrightarrow> CHR ''>'' \<notin> set (markup_to rep cs)" by auto
    with False 2 show ?thesis by auto
  qed
qed

lemma set_collapse: "set (collapse x) \<subseteq> insert CHR '' '' (set x)"
proof (induction x rule: collapse.induct)
  case 1
  then show ?case by simp
next
  case (2 c cs)
  have "set (dropWhile is_space cs) \<subseteq> set cs"
    by (auto dest: set_dropWhileD)
  with 2 show ?case by auto
qed

lemma no_markup_dropWhile: "no_markup x \<Longrightarrow> no_markup (dropWhile P x)"
  by (metis no_markup_suffix takeWhile_dropWhile_id)

lemma no_markup_collapse: "no_markup x \<Longrightarrow> no_markup (collapse x)"
proof (induction x rule: collapse.induct)
  case 1
  then show ?case by simp
next
  case (2 c cs)
  show ?case
  proof (cases "is_space c")
    case True
    with 2 show ?thesis by (simp add: no_markup_dropWhile)
  next
    case False
    from set_collapse [of cs]
    have "CHR ''>'' \<notin> set cs \<Longrightarrow> CHR ''>'' \<notin> set (collapse cs)" by auto
    with False 2 show ?thesis by auto
  qed
qed

lemma trim_parts: "\<exists>a b. x = a @ trim x @ b"
proof -
  let ?y = "dropWhile is_space x"
  have "x = takeWhile is_space x @ ?y" by simp
  moreover have "?y = rev (dropWhile is_space (rev ?y)) @ rev (takeWhile is_space (rev ?y))"
    by (metis rev_append rev_rev_ident takeWhile_dropWhile_id)
  ultimately have "x = takeWhile is_space x @ trim x @ rev (takeWhile is_space (rev ?y))"
    by (simp add: trim_def)
  then show ?thesis by blast
qed

lemma no_markup_trim: "no_markup x \<Longrightarrow> no_markup (trim x)"
  by (metis trim_parts no_markup_prefix no_markup_suffix)

lemma spaced_collapse: "spaced (collapse x)"
proof (induction x rule: collapse.induct)
  case 1
  then show ?case by simp
next
  case (2 c cs)
  show ?case
  proof (cases "is_space c")
    case False
    with 2 show ?thesis by simp
  next
    case True
    have "case collapse (dropWhile is_space cs) of [] \<Rightarrow> True | d # _ \<Rightarrow> \<not> is_space d"
    proof (cases "dropWhile is_space cs")
      case Nil
      show ?thesis unfolding Nil by simp
    next
      case (Cons d r)
      then have "\<not> is_space d" by (metis hd_dropWhile list.sel(1) list.distinct(1))
      with Cons show ?thesis by simp
    qed
    with True 2 show ?thesis by simp
  qed
qed

lemma spaced_id: "spaced x \<Longrightarrow> collapse x = x"
proof (induction x rule: collapse.induct)
  case 1
  then show ?case by simp
next
  case (2 c cs)
  show ?case
  proof (cases "is_space c")
    case False
    with 2 show ?thesis by simp
  next
    case True
    with "2.prems" have c: "c = CHR '' ''" and cs: "spaced cs"
      and hd: "case cs of [] \<Rightarrow> True | d # _ \<Rightarrow> \<not> is_space d"
      by simp_all
    from hd have "dropWhile is_space cs = cs" by (cases cs) simp_all
    with True c cs "2.IH"(1) show ?thesis by simp
  qed
qed

lemma spaced_suffix: "spaced (a @ b) \<Longrightarrow> spaced b"
  by (induction a) auto

lemma spaced_prefix: "spaced (a @ b) \<Longrightarrow> spaced a"
proof (induction a)
  case Nil
  then show ?case by simp
next
  case (Cons c a)
  then show ?case by (cases a) auto
qed

lemma spaced_trim: "spaced x \<Longrightarrow> spaced (trim x)"
  by (metis trim_parts spaced_prefix spaced_suffix)

lemma trim_trim: "trim (trim x) = trim x"
proof -
  let ?y = "dropWhile is_space x"
  let ?t = "rev (dropWhile is_space (rev ?y))"
  have t: "trim x = ?t" by (simp add: trim_def)
  have "dropWhile is_space ?t = ?t"
  proof (cases ?t)
    case Nil
    show ?thesis unfolding Nil by simp
  next
    case (Cons d r)
    have "?y = ?t @ rev (takeWhile is_space (rev ?y))"
      by (metis rev_append rev_rev_ident takeWhile_dropWhile_id)
    with Cons have "?y \<noteq> []" and "hd ?y = d"
      by (metis append_is_Nil_conv list.distinct(1), metis hd_append2 list.distinct(1) list.sel(1))
    then have "\<not> is_space d" by (metis hd_dropWhile)
    with Cons show ?thesis by simp
  qed
  then have "trim ?t = rev (dropWhile is_space (rev ?t))"
    by (simp add: trim_def)
  also have "\<dots> = ?t"
    by (simp add: dropWhile_idem)
  finally show ?thesis by (simp add: t)
qed

subsection \<open>The claims about the normalizer\<close>

text \<open>
  Claim C2, as stated: the Text Normalizer returns the text with all tag markup
  removed, white space collapsed and the ends trimmed, so that \<^verbatim>\<open>a<br>b\<close> becomes the
  single token \<^verbatim>\<open>ab\<close>. The code puts a blank where the markup was: \<^verbatim>\<open>a<br>b\<close> becomes
  \<^verbatim>\<open>a b\<close>.
\<close>

theorem normalizer_counterexample:
  "stripTags ''a<br>b'' = ''a b''
   \<and> normalize_spec ''a<br>b'' = ''ab''
   \<and> stripTags ''a<br>b'' \<noteq> normalize_spec ''a<br>b''"
  by code_simp

text \<open>
  Claim C2, amended: for every content fragment, the Text Normalizer returns the text
  in which every piece of tag markup (from a \<^verbatim>\<open><\<close> to the next \<^verbatim>\<open>>\<close>, brackets
  included) is replaced by one blank, then every run of white space is collapsed to
  one blank, then the ends are trimmed; \<^verbatim>\<open>a<br>b\<close> becomes the two tokens \<^verbatim>\<open>a b\<close>. The
  accessibility check normalizes the inner text of a button in the same way.
\<close>

theorem normalizer_pipeline:
  "stripTags s = trim (collapse (markup_to '' '' s))
   \<and> visibleText block = stripTags (innerHtml block)
   \<and> stripTags ''a<br>b'' = ''a b''
   \<and> stripTags ''Hello <b>world</b>'' = ''Hello world''"
proof -
  have ex1: "stripTags ''a<br>b'' = ''a b''"
    by code_simp
  have ex2: "stripTags ''Hello <b>world</b>'' = ''Hello world''"
    by code_simp
  have "visibleText block = stripTags (innerHtml block)"
    by (simp add: visibleText_def stripTags_def)
  with stripTags_pipeline [of s] ex1 ex2 show ?thesis by blast
qed

text \<open>
  Claim C8. The Text Normalizer is idempotent: normalizing a normalized text returns
  it unchanged.
\<close>

theorem normalizer_idempotent: "stripTags (stripTags s) = stripTags s"
proof -
  let ?u = "collapse (markup_to '' '' s)"
  have t: "stripTags s = trim ?u"
    by (rule stripTags_pipeline)
  have "no_markup (markup_to '' '' s)"
    by (rule no_markup_markup_to) simp_all
  then have "no_markup (trim ?u)"
    by (intro no_markup_trim no_markup_collapse)
  then have 1: "markup_to '' '' (trim ?u) = trim ?u"
    by (rule no_markup_id)
  have "spaced (trim ?u)"
    by (intro spaced_trim spaced_collapse)
  then have 2: "collapse (trim ?u) = trim ?u"
    by (rule spaced_id)
  have "stripTags (trim ?u) = trim (collapse (markup_to '' '' (trim ?u)))"
    by (rule stripTags_pipeline)
  also have "\<dots> = trim ?u"
    by (simp only: 1 2 trim_trim)
  finally show ?thesis
    by (simp only: t)
qed

end
